theory Spec2Isabelle
  imports Main
begin

section \<open>Bytes\<close>

text \<open>
  A Python \<^verbatim>\<open>bytes\<close> value is a list of octets. An Isabelle \<^typ>\<open>char\<close> is one octet,
  so \<^verbatim>\<open>b"\xff\xd8"\<close> is the two-element list \<open>[CHR 0xFF, CHR 0xD8]\<close> and \<^verbatim>\<open>len\<close> is
  \<^const>\<open>length\<close>. Header text is ASCII, which Latin-1 encodes octet by octet, so the
  same type serves for \<^verbatim>\<open>str\<close> values that are sent on the wire.
\<close>

type_synonym bytes = "char list"

definition startswith :: "bytes \<Rightarrow> bytes \<Rightarrow> bool" where
  \<comment> \<open>\<^verbatim>\<open>buf.startswith(prefix)\<close>\<close>
  "startswith buf p \<longleftrightarrow> take (length p) buf = p"

definition SOI :: bytes where
  \<comment> \<open>the JPEG start-of-image marker, \<^verbatim>\<open>b"\xff\xd8"\<close> of line 45\<close>
  "SOI = [CHR 0xFF, CHR 0xD8]"

definition CRLF :: bytes where
  "CRLF = [CHR 0x0D, CHR 0x0A]"

section \<open>StreamingOutput\<close>

text \<open>
  \<^verbatim>\<open>threading.Condition\<close> is a lock together with the collection of threads blocked in
  \<^verbatim>\<open>wait()\<close>. Every access of the program to \<^verbatim>\<open>frame\<close> and to the condition happens
  inside a \<^verbatim>\<open>with ...condition:\<close> block, and no such block performs input or output, so a
  block runs as one atomic step and the lock is free between steps; what remains of the
  condition is the set of waiting threads. \<^verbatim>\<open>wait()\<close> (called without timeout) enters the
  calling thread into that set and returns only after a \<^verbatim>\<open>notify_all()\<close> has removed it.
\<close>

type_synonym tid = nat

record Condition =
  waiters :: "tid set"

definition notify_all :: "Condition \<Rightarrow> Condition" where
  "notify_all c = c\<lparr>waiters := {}\<rparr>"

definition wait_enter :: "tid \<Rightarrow> Condition \<Rightarrow> Condition" where
  \<comment> \<open>first half of \<^verbatim>\<open>wait()\<close>: enqueue the caller and release the lock\<close>
  "wait_enter t c = c\<lparr>waiters := insert t (waiters c)\<rparr>"

definition notified :: "tid \<Rightarrow> Condition \<Rightarrow> bool" where
  \<comment> \<open>second half of \<^verbatim>\<open>wait()\<close> may proceed: the caller has been taken off the set\<close>
  "notified t c \<longleftrightarrow> t \<notin> waiters c"

record StreamingOutput =
  frame :: "bytes option"
  condition :: Condition

definition StreamingOutput_init :: StreamingOutput where
  \<comment> \<open>\<^verbatim>\<open>__init__\<close>, lines 33-35\<close>
  "StreamingOutput_init = \<lparr>frame = None, condition = \<lparr>waiters = {}\<rparr>\<rparr>"

definition publish :: "bytes \<Rightarrow> StreamingOutput \<Rightarrow> StreamingOutput" where
  \<comment> \<open>the \<^verbatim>\<open>with self.condition:\<close> block, lines 46-48\<close>
  "publish buf out = (let out1 = out\<lparr>frame := Some buf\<rparr>
                      in out1\<lparr>condition := notify_all (condition out1)\<rparr>)"

definition StreamingOutput_write :: "bytes \<Rightarrow> StreamingOutput \<Rightarrow> nat \<times> StreamingOutput" where
  \<comment> \<open>lines 45-49; the first component is the returned \<^verbatim>\<open>len(buf)\<close>\<close>
  "StreamingOutput_write buf out =
     (let out' = (if startswith buf SOI then publish buf out else out)
      in (length buf, out'))"

definition writable :: "StreamingOutput \<Rightarrow> bool" where
  "writable out = True"

section \<open>StreamingHandler\<close>

text \<open>
  The handler talks to its client through methods of \<^verbatim>\<open>BaseHTTPRequestHandler\<close>. A run
  of \<^verbatim>\<open>do_GET\<close> is modelled by the calls it makes, in order. \<^verbatim>\<open>send_response\<close> and
  \<^verbatim>\<open>send_header\<close> only append to the header buffer; \<^verbatim>\<open>end_headers\<close>, \<^verbatim>\<open>wfile.write\<close>
  and \<^verbatim>\<open>send_error\<close> write to the socket and raise when the client has gone.
\<close>

datatype HTTPStatus = OK | SERVICE_UNAVAILABLE | NOT_FOUND

fun status_code :: "HTTPStatus \<Rightarrow> nat" where
  "status_code OK = 200"
| "status_code SERVICE_UNAVAILABLE = 503"
| "status_code NOT_FOUND = 404"

datatype call =
    Send_response HTTPStatus
  | Send_error HTTPStatus "string option"
  | Send_header string string
  | End_headers
  | Wfile_write bytes

fun raises_on_closed :: "call \<Rightarrow> bool" where
  "raises_on_closed (Send_response _) = False"
| "raises_on_closed (Send_header _ _) = False"
| "raises_on_closed (Send_error _ _) = True"
| "raises_on_closed End_headers = True"
| "raises_on_closed (Wfile_write _) = True"

text \<open>
  \<^verbatim>\<open>send_header(keyword, value)\<close> formats its value with \<^verbatim>\<open>%s\<close>; for the \<^verbatim>\<open>int\<close> values
  passed at lines 79, 89 and 104 that is the decimal numeral.
\<close>

definition digit :: "nat \<Rightarrow> char" where
  "digit d = ''0123456789'' ! d"

fun decimal :: "nat \<Rightarrow> string" where
  "decimal n = (if n < 10 then [digit n] else decimal (n div 10) @ [digit (n mod 10)])"

declare decimal.simps [simp del]



definition LF :: bytes where
  "LF = [CHR 0x0A]"

definition PAGE :: bytes where
  \<comment> \<open>lines 63-73\<close>
  \<open>PAGE =
     ''<html>'' @ LF @
     ''<head>'' @ LF @
     ''<title>Raspberry Pi Camera</title>'' @ LF @
     ''</head>'' @ LF @
     ''<body>'' @ LF @
     ''<h1>Raspberry Pi Camera Stream</h1>'' @ LF @
     ''<img src="/stream.mjpg" width="640" height="480" />'' @ LF @
     ''</body>'' @ LF @
     ''</html>'' @ LF\<close>

text \<open>
  What follows the straight-line calls of a branch: the handler returns, or it enters the
  \<^verbatim>\<open>while True\<close> loop of line 95.
\<close>

datatype cont = To_return | To_loop

definition do_GET :: "string \<Rightarrow> StreamingOutput option \<Rightarrow> call list \<times> cont" where
  \<comment> \<open>lines 76-93 and 108-110; the second argument is the global \<^verbatim>\<open>output\<close>\<close>
  "do_GET path outp =
     (if path = ''/'' then
        ([Send_response OK,
          Send_header ''Content-Type'' ''text/html'',
          Send_header ''Content-Length'' (decimal (length PAGE)),
          End_headers,
          Wfile_write PAGE], To_return)
      else if path = ''/stream.mjpg'' then
        (if outp = None then
           ([Send_error SERVICE_UNAVAILABLE (Some ''Camera not initialised''),
             End_headers], To_return)
         else
           ([Send_response OK,
             Send_header ''Age'' (decimal 0),
             Send_header ''Cache-Control'' ''no-cache, private'',
             Send_header ''Pragma'' ''no-cache'',
             Send_header ''Content-Type'' ''multipart/x-mixed-replace; boundary=FRAME'',
             End_headers], To_loop))
      else
        ([Send_error NOT_FOUND None,
          End_headers], To_return))"

definition stream_part :: "bytes \<Rightarrow> call list" where
  \<comment> \<open>lines 102-107, for the \<^verbatim>\<open>frame\<close> read at line 98\<close>
  "stream_part fr =
     [Wfile_write (''--FRAME'' @ CRLF),
      Send_header ''Content-Type'' ''image/jpeg'',
      Send_header ''Content-Length'' (decimal (length fr)),
      End_headers,
      Wfile_write fr,
      Wfile_write CRLF]"

subsection \<open>The bytes on the wire\<close>







section \<open>The running server\<close>

text \<open>
  \<^verbatim>\<open>main\<close> constructs \<^verbatim>\<open>output\<close> (line 160) before it starts the encoder (line 162) and
  before it creates the server (line 165). From then on two threads run: the encoder
  thread, which calls \<^verbatim>\<open>output.write\<close> once per encoded chunk, and the thread of
  \<^verbatim>\<open>serve_forever\<close>. The server is a plain \<^verbatim>\<open>HTTPServer\<close>: it accepts a connection,
  runs its handler to the end (return or exception) and only then accepts the next one,
  so a client that connects while a handler runs stays queued.

  A session is one client connection. Its program counter says where its handler
  stands; \<open>sent\<close> lists the calls the handler has completed.
\<close>

datatype pc =
    Idle                      \<comment> \<open>no connection yet\<close>
  | Queued string             \<comment> \<open>connected, request for the path sent, not yet accepted\<close>
  | Calls "call list" cont    \<comment> \<open>straight-line calls still to make, and what follows\<close>
  | At_with                   \<comment> \<open>line 96, about to enter the \<^verbatim>\<open>with\<close> block\<close>
  | Blocked                   \<comment> \<open>line 97, inside \<^verbatim>\<open>wait()\<close>\<close>
  | Got "bytes option"        \<comment> \<open>line 99, with the local \<^verbatim>\<open>frame\<close> read at line 98\<close>
  | Returned                  \<comment> \<open>\<^verbatim>\<open>do_GET\<close> has returned\<close>
  | Raised                    \<comment> \<open>a socket write raised; the exception left \<^verbatim>\<open>do_GET\<close>\<close>

record session =
  pc :: pc
  sent :: "call list"

record system =
  "output" :: StreamingOutput
  serving :: "tid option"
  sessions :: "tid \<Rightarrow> session"

definition boot :: system where
  "boot = \<lparr>output = StreamingOutput_init, serving = None,
           sessions = (\<lambda>_. \<lparr>pc = Idle, sent = []\<rparr>)\<rparr>"

text \<open>
  The steps. The argument of \<open>Call\<close> says whether the socket still takes data when the
  call is made.
\<close>

datatype label =
    Encoder_write bytes       \<comment> \<open>the encoder thread runs \<^verbatim>\<open>output.write(buf)\<close>\<close>
  | Connect tid string        \<comment> \<open>a client connects and requests the path\<close>
  | Accept tid                \<comment> \<open>the server accepts the connection and enters \<^verbatim>\<open>do_GET\<close>\<close>
  | Call tid bool             \<comment> \<open>the handler makes its next call\<close>
  | Enter_wait tid            \<comment> \<open>lines 96-97: take the lock, call \<^verbatim>\<open>wait()\<close>, block\<close>
  | Leave_wait tid            \<comment> \<open>lines 97-98: \<^verbatim>\<open>wait()\<close> returns, \<^verbatim>\<open>frame = output.frame\<close>\<close>
  | Test_frame tid            \<comment> \<open>lines 99-100: \<^verbatim>\<open>if frame is None: continue\<close>\<close>

definition after_calls :: "call list \<Rightarrow> cont \<Rightarrow> pc" where
  "after_calls cs k =
     (if cs \<noteq> [] then Calls cs k
      else case k of To_return \<Rightarrow> Returned | To_loop \<Rightarrow> At_with)"

definition set_pc :: "tid \<Rightarrow> pc \<Rightarrow> system \<Rightarrow> system" where
  "set_pc t p s = s\<lparr>sessions := (sessions s)(t := (sessions s t)\<lparr>pc := p\<rparr>)\<rparr>"

definition log_call :: "tid \<Rightarrow> call \<Rightarrow> system \<Rightarrow> system" where
  "log_call t c s =
     s\<lparr>sessions := (sessions s)(t := (sessions s t)\<lparr>sent := sent (sessions s t) @ [c]\<rparr>)\<rparr>"

definition release_server :: "pc \<Rightarrow> system \<Rightarrow> system" where
  \<comment> \<open>the server is free again once the handler has returned or raised\<close>
  "release_server p s = (if p = Returned \<or> p = Raised then s\<lparr>serving := None\<rparr> else s)"

fun step :: "label \<Rightarrow> system \<Rightarrow> system option" where
  "step (Encoder_write buf) s = Some (s\<lparr>output := snd (StreamingOutput_write buf (output s))\<rparr>)"
| "step (Connect t path) s =
     (case pc (sessions s t) of
        Idle \<Rightarrow> Some (set_pc t (Queued path) s)
      | _ \<Rightarrow> None)"
| "step (Accept t) s =
     (case pc (sessions s t) of
        Queued path \<Rightarrow>
          (if serving s = None then
             (case do_GET path (Some (output s)) of
                (cs, k) \<Rightarrow>
                  Some (release_server (after_calls cs k)
                         (set_pc t (after_calls cs k) (s\<lparr>serving := Some t\<rparr>))))
           else None)
      | _ \<Rightarrow> None)"
| "step (Call t ok) s =
     (case pc (sessions s t) of
        Calls (c # cs) k \<Rightarrow>
          (if raises_on_closed c \<and> \<not> ok then
             Some (release_server Raised (set_pc t Raised s))
           else
             Some (release_server (after_calls cs k)
                    (set_pc t (after_calls cs k) (log_call t c s))))
      | _ \<Rightarrow> None)"
| "step (Enter_wait t) s =
     (case pc (sessions s t) of
        At_with \<Rightarrow>
          Some (set_pc t Blocked
                 (s\<lparr>output := (output s)\<lparr>condition := wait_enter t (condition (output s))\<rparr>\<rparr>))
      | _ \<Rightarrow> None)"
| "step (Leave_wait t) s =
     (case pc (sessions s t) of
        Blocked \<Rightarrow>
          (if notified t (condition (output s)) then
             Some (set_pc t (Got (frame (output s))) s)
           else None)
      | _ \<Rightarrow> None)"
| "step (Test_frame t) s =
     (case pc (sessions s t) of
        Got None \<Rightarrow> Some (set_pc t At_with s)
      | Got (Some fr) \<Rightarrow> Some (set_pc t (after_calls (stream_part fr) To_loop) s)
      | _ \<Rightarrow> None)"

fun run :: "label list \<Rightarrow> system \<Rightarrow> system option" where
  "run [] s = Some s"
| "run (l # ls) s = (case step l s of None \<Rightarrow> None | Some s' \<Rightarrow> run ls s')"

fun actor :: "label \<Rightarrow> tid option" where
  "actor (Encoder_write _) = None"
| "actor (Connect t _) = Some t"
| "actor (Accept t) = Some t"
| "actor (Call t _) = Some t"
| "actor (Enter_wait t) = Some t"
| "actor (Leave_wait t) = Some t"
| "actor (Test_frame t) = Some t"

fun published :: "label list \<Rightarrow> bytes list" where
  \<comment> \<open>the chunks of a trace whose \<^verbatim>\<open>write\<close> publishes, in order\<close>
  "published [] = []"
| "published (Encoder_write buf # ls) =
     (if startswith buf SOI then buf # published ls else published ls)"
| "published (_ # ls) = published ls"

subsection \<open>Traces used as examples\<close>

definition frameA :: bytes where "frameA = [CHR 0xFF, CHR 0xD8, CHR ''A'']"
definition frameB :: bytes where "frameB = [CHR 0xFF, CHR 0xD8, CHR ''B'']"
definition frameC :: bytes where "frameC = [CHR 0xFF, CHR 0xD8, CHR ''C'']"

definition open_stream :: "tid \<Rightarrow> label list" where
  "open_stream t =
     [Connect t ''/stream.mjpg'', Accept t,
      Call t True, Call t True, Call t True, Call t True, Call t True, Call t True]"

definition emit_part :: "tid \<Rightarrow> label list" where
  \<comment> \<open>lines 99-107 with every socket write succeeding\<close>
  "emit_part t =
     [Test_frame t, Call t True, Call t True, Call t True, Call t True, Call t True, Call t True]"

definition overtaken_wait :: "label list" where
  \<comment> \<open>session 0 waits before any publish; A and B are published before it runs again\<close>
  "overtaken_wait =
     open_stream 0 @ [Enter_wait 0] @ [Encoder_write frameA, Encoder_write frameB] @
     [Leave_wait 0] @ emit_part 0"

definition failure_then_second :: "label list" where
  \<comment> \<open>session 1 connects while session 0 streams; session 0 fails; B, then C, are published\<close>
  "failure_then_second =
     open_stream 0 @
     [Enter_wait 0, Connect 1 ''/stream.mjpg'', Encoder_write frameA, Leave_wait 0,
      Test_frame 0, Call 0 False,
      Encoder_write frameB,
      Accept 1, Call 1 True, Call 1 True, Call 1 True, Call 1 True, Call 1 True, Call 1 True,
      Enter_wait 1, Encoder_write frameC, Leave_wait 1] @ emit_part 1"

subsection \<open>The invariant of waking\<close>

text \<open>
  A session that has been notified finds a frame in the slot, and no session stands at
  line 99 with \<^verbatim>\<open>frame\<close> equal to \<^verbatim>\<open>None\<close>.
\<close>

definition wake_inv :: "system \<Rightarrow> bool" where
  "wake_inv s \<longleftrightarrow>
     (\<forall>t. (pc (sessions s t) = Blocked \<and> t \<notin> waiters (condition (output s))
             \<longrightarrow> frame (output s) \<noteq> None) \<and>
          pc (sessions s t) \<noteq> Got None)"

section \<open>Ingest\<close>

lemma startswith_SOI: "startswith buf SOI \<longleftrightarrow> (\<exists>rest. buf = CHR 0xFF # CHR 0xD8 # rest)"
proof (cases buf)
  case Nil
  then show ?thesis by (simp add: startswith_def SOI_def)
next
  case (Cons a as)
  then show ?thesis by (cases as) (auto simp: startswith_def SOI_def)
qed

text \<open>
  C3. \<^verbatim>\<open>write\<close> publishes exactly when the chunk begins with the octets 0xFF 0xD8: on
  such a chunk the state after the call is the state before it with one publish of the
  chunk applied (the slot holds the chunk unchanged and every waiter is notified); on any
  other chunk the whole state, and so the frame slot, is unchanged. The model of
  \<^verbatim>\<open>write\<close> is a total function: no branch of lines 45-49 raises.
\<close>

theorem write_publishes_iff_marker:
  "(startswith buf [CHR 0xFF, CHR 0xD8] \<longrightarrow>
      snd (StreamingOutput_write buf out) = publish buf out \<and>
      frame (snd (StreamingOutput_write buf out)) = Some buf \<and>
      waiters (condition (snd (StreamingOutput_write buf out))) = {}) \<and>
   (\<not> startswith buf [CHR 0xFF, CHR 0xD8] \<longrightarrow> snd (StreamingOutput_write buf out) = out)"
  by (simp add: StreamingOutput_write_def SOI_def publish_def notify_all_def Let_def)

theorem write_publishes_iff_marker_witness:
  "snd (StreamingOutput_write [CHR 0xFF, CHR 0xD8, CHR 0x01] StreamingOutput_init)
     = publish [CHR 0xFF, CHR 0xD8, CHR 0x01] StreamingOutput_init \<and>
   frame (snd (StreamingOutput_write [CHR 0xFF, CHR 0xD8, CHR 0x01] StreamingOutput_init))
     = Some [CHR 0xFF, CHR 0xD8, CHR 0x01] \<and>
   snd (StreamingOutput_write [CHR 0xFF, CHR 0xD9] StreamingOutput_init) = StreamingOutput_init"
proof -
  have a: "startswith [CHR 0xFF, CHR 0xD8, CHR 0x01] [CHR 0xFF, CHR 0xD8]"
    by (simp add: startswith_def)
  have b: "\<not> startswith [CHR 0xFF, CHR 0xD9] [CHR 0xFF, CHR 0xD8]"
    by (simp add: startswith_def)
  show ?thesis
    using a b
      write_publishes_iff_marker [of "[CHR 0xFF, CHR 0xD8, CHR 0x01]" StreamingOutput_init]
      write_publishes_iff_marker [of "[CHR 0xFF, CHR 0xD9]" StreamingOutput_init]
    by blast
qed

text \<open>
  C7. \<^verbatim>\<open>write\<close> returns the length of the chunk for every chunk, whether or not the chunk
  carries the marker.
\<close>

theorem write_returns_length: "fst (StreamingOutput_write buf out) = length buf"
  by (simp add: StreamingOutput_write_def Let_def)

section \<open>Facts about steps and runs\<close>

lemma output_set_pc [simp]: "output (set_pc t p s) = output s"
  by (simp add: set_pc_def)
lemma output_log_call [simp]: "output (log_call t c s) = output s"
  by (simp add: log_call_def)
lemma output_release_server [simp]: "output (release_server p s) = output s"
  by (simp add: release_server_def)
lemma sessions_set_pc [simp]:
  "sessions (set_pc t p s) u = (if u = t then (sessions s t)\<lparr>pc := p\<rparr> else sessions s u)"
  by (simp add: set_pc_def)
lemma sessions_log_call [simp]:
  "sessions (log_call t c s) u =
     (if u = t then (sessions s t)\<lparr>sent := sent (sessions s t) @ [c]\<rparr> else sessions s u)"
  by (simp add: log_call_def)
lemma sessions_release_server [simp]: "sessions (release_server p s) = sessions s"
  by (simp add: release_server_def)
lemma serving_set_pc [simp]: "serving (set_pc t p s) = serving s"
  by (simp add: set_pc_def)
lemma serving_log_call [simp]: "serving (log_call t c s) = serving s"
  by (simp add: log_call_def)
lemma serving_release_server [simp]:
  "serving (release_server p s) = (if p = Returned \<or> p = Raised then None else serving s)"
  by (simp add: release_server_def)

lemma frame_write:
  "frame (snd (StreamingOutput_write buf out)) = (if startswith buf SOI then Some buf else frame out)"
  by (simp add: StreamingOutput_write_def publish_def Let_def)

lemma waiters_write:
  "waiters (condition (snd (StreamingOutput_write buf out))) =
     (if startswith buf SOI then {} else waiters (condition out))"
  by (simp add: StreamingOutput_write_def publish_def notify_all_def Let_def)

lemma run_append:
  "run (xs @ ys) s = (case run xs s of None \<Rightarrow> None | Some s' \<Rightarrow> run ys s')"
  by (induction xs arbitrary: s) (auto split: option.splits)

lemma published_append: "published (xs @ ys) = published xs @ published ys"
  by (induction xs rule: published.induct) auto

lemma step_frame:
  "step l s = Some s' \<Longrightarrow>
   frame (output s') = (if published [l] = [] then frame (output s) else Some (last (published [l])))"
  by (cases l) (auto simp: frame_write split: pc.splits list.splits if_splits prod.splits option.splits)

lemma run_frame:
  "run tr s0 = Some s \<Longrightarrow>
   frame (output s) = (if published tr = [] then frame (output s0) else Some (last (published tr)))"
proof (induction tr arbitrary: s0)
  case Nil
  then show ?case by simp
next
  case (Cons l tr)
  from Cons.prems obtain s1 where l: "step l s0 = Some s1" and r: "run tr s1 = Some s"
    by (auto split: option.splits)
  have p: "published (l # tr) = published [l] @ published tr"
    using published_append [of "[l]" tr] by simp
  show ?case
    using Cons.IH [OF r] step_frame [OF l] by (simp add: p)
qed

lemma step_other:
  "step l s = Some s' \<Longrightarrow> actor l \<noteq> Some t \<Longrightarrow> sessions s' t = sessions s t"
  by (cases l) (auto split: pc.splits list.splits if_splits prod.splits option.splits)

lemma run_other:
  "run tr s0 = Some s \<Longrightarrow> \<forall>l\<in>set tr. actor l \<noteq> Some t \<Longrightarrow> sessions s t = sessions s0 t"
proof (induction tr arbitrary: s0)
  case Nil
  then show ?case by simp
next
  case (Cons l tr)
  from Cons.prems obtain s1 where l: "step l s0 = Some s1" and r: "run tr s1 = Some s"
    by (auto split: option.splits)
  show ?case using Cons.IH [OF r] step_other [OF l] Cons.prems(2) by simp
qed


lemma run_append_Some:
  "run (xs @ ys) s = Some s' \<longleftrightarrow> (\<exists>s1. run xs s = Some s1 \<and> run ys s1 = Some s')"
  by (simp add: run_append split: option.splits)

lemma wake_inv_boot: "wake_inv boot"
  by (simp add: wake_inv_def boot_def StreamingOutput_init_def)

lemma step_wake_inv: "step l s = Some s' \<Longrightarrow> wake_inv s \<Longrightarrow> wake_inv s'"
proof (cases l)
  case (Encoder_write buf)
  assume "step l s = Some s'" and "wake_inv s"
  with Encoder_write show ?thesis
    by (auto simp: wake_inv_def frame_write waiters_write)
next
  case (Connect t path)
  assume "step l s = Some s'" and "wake_inv s"
  with Connect show ?thesis
    by (auto simp: wake_inv_def split: pc.splits if_splits)
next
  case (Accept t)
  assume "step l s = Some s'" and "wake_inv s"
  with Accept show ?thesis
    by (auto simp: wake_inv_def after_calls_def split: pc.splits if_splits prod.splits cont.splits)
next
  case (Call t ok)
  assume "step l s = Some s'" and "wake_inv s"
  with Call show ?thesis
    by (auto simp: wake_inv_def after_calls_def split: pc.splits list.splits if_splits cont.splits)
next
  case (Enter_wait t)
  assume "step l s = Some s'" and "wake_inv s"
  with Enter_wait show ?thesis
    by (auto simp: wake_inv_def wait_enter_def split: pc.splits if_splits)
next
  case (Leave_wait t)
  assume "step l s = Some s'" and "wake_inv s"
  with Leave_wait show ?thesis
    by (auto simp: wake_inv_def notified_def split: pc.splits if_splits)
next
  case (Test_frame t)
  assume "step l s = Some s'" and "wake_inv s"
  with Test_frame show ?thesis
    by (auto simp: wake_inv_def after_calls_def stream_part_def split: pc.splits option.splits if_splits)
qed

lemma run_wake_inv: "run tr s0 = Some s \<Longrightarrow> wake_inv s0 \<Longrightarrow> wake_inv s"
proof (induction tr arbitrary: s0)
  case Nil
  then show ?case by simp
next
  case (Cons l tr)
  from Cons.prems obtain s1 where l: "step l s0 = Some s1" and r: "run tr s1 = Some s"
    by (auto split: option.splits)
  show ?case using Cons.IH [OF r] step_wake_inv [OF l] Cons.prems(2) by simp
qed

lemma step_stays_blocked:
  "step l s = Some s' \<Longrightarrow> published [l] = [] \<Longrightarrow>
   pc (sessions s t) = Blocked \<Longrightarrow> t \<in> waiters (condition (output s)) \<Longrightarrow>
   pc (sessions s' t) = Blocked \<and> t \<in> waiters (condition (output s'))"
  by (cases l)
     (auto simp: waiters_write wait_enter_def notified_def
           split: pc.splits list.splits if_splits prod.splits option.splits)

lemma run_stays_blocked:
  "run tr s0 = Some s \<Longrightarrow> published tr = [] \<Longrightarrow>
   pc (sessions s0 t) = Blocked \<Longrightarrow> t \<in> waiters (condition (output s0)) \<Longrightarrow>
   pc (sessions s t) = Blocked \<and> t \<in> waiters (condition (output s))"
proof (induction tr arbitrary: s0)
  case Nil
  then show ?case by simp
next
  case (Cons l tr)
  from Cons.prems obtain s1 where l: "step l s0 = Some s1" and r: "run tr s1 = Some s"
    by (auto split: option.splits)
  have p: "published (l # tr) = published [l] @ published tr"
    using published_append [of "[l]" tr] by simp
  with Cons.prems(2) have pl: "published [l] = []" and pt: "published tr = []"
    by simp_all
  from step_stays_blocked [OF l pl Cons.prems(3) Cons.prems(4)]
  show ?case using Cons.IH [OF r pt] by simp
qed

lemma step_not_waiting:
  "step l s = Some s' \<Longrightarrow> actor l \<noteq> Some t \<Longrightarrow>
   t \<notin> waiters (condition (output s)) \<or> published [l] \<noteq> [] \<Longrightarrow>
   t \<notin> waiters (condition (output s'))"
  by (cases l)
     (auto simp: waiters_write wait_enter_def
           split: pc.splits list.splits if_splits prod.splits option.splits)

lemma run_not_waiting:
  "run tr s0 = Some s \<Longrightarrow> \<forall>l\<in>set tr. actor l \<noteq> Some t \<Longrightarrow>
   t \<notin> waiters (condition (output s0)) \<or> published tr \<noteq> [] \<Longrightarrow>
   t \<notin> waiters (condition (output s))"
proof (induction tr arbitrary: s0)
  case Nil
  then show ?case by simp
next
  case (Cons l tr)
  from Cons.prems obtain s1 where l: "step l s0 = Some s1" and r: "run tr s1 = Some s"
    by (auto split: option.splits)
  have p: "published (l # tr) = published [l] @ published tr"
    using published_append [of "[l]" tr] by simp
  from Cons.prems(2) have al: "actor l \<noteq> Some t" and at: "\<forall>l\<in>set tr. actor l \<noteq> Some t"
    by simp_all
  show ?case
  proof (cases "published tr = []")
    case True
    with Cons.prems(3) p
    have "t \<notin> waiters (condition (output s0)) \<or> published [l] \<noteq> []" by simp
    from step_not_waiting [OF l al this] show ?thesis
      using Cons.IH [OF r at] by simp
  next
    case False
    then show ?thesis using Cons.IH [OF r at] by simp
  qed
qed


lemmas model_defs =
  boot_def StreamingOutput_init_def do_GET_def after_calls_def set_pc_def log_call_def
  release_server_def StreamingOutput_write_def publish_def notify_all_def wait_enter_def notified_def
  startswith_def SOI_def stream_part_def open_stream_def frameA_def frameB_def frameC_def
  emit_part_def overtaken_wait_def failure_then_second_def Let_def

lemma run_snoc: "run tr s0 = Some s \<Longrightarrow> step l s = Some s' \<Longrightarrow> run (tr @ [l]) s0 = Some s'"
  by (simp add: run_append)


lemma leave_wait_reads_latest:
  assumes r: "run (tr @ [Leave_wait t]) s0 = Some s" and p: "published tr \<noteq> []"
  shows "pc (sessions s t) = Got (Some (last (published tr)))"
proof -
  from r obtain s1 where a: "run tr s0 = Some s1" and b: "step (Leave_wait t) s1 = Some s"
    by (auto simp: run_append_Some split: option.splits)
  from run_frame [OF a] p have "frame (output s1) = Some (last (published tr))" by simp
  with b show ?thesis
    by (auto split: pc.splits if_splits)
qed

lemma test_frame_Some:
  "pc (sessions s t) = Got (Some fr) \<Longrightarrow>
   \<exists>s'. step (Test_frame t) s = Some s' \<and> pc (sessions s' t) = Calls (stream_part fr) To_loop"
  by (simp add: after_calls_def stream_part_def)

section \<open>Waiting readers\<close>



text \<open>
  C2 as stated fails: a session waits before any publish, the encoder publishes frame A
  and then frame B before the woken session runs again; the first part the session writes
  carries B, not the first published frame A.
\<close>

theorem first_wait_counterexample:
  "published (open_stream 0) = [] \<and>
   published overtaken_wait = [frameA, frameB] \<and>
   frameB \<noteq> frameA \<and>
   run overtaken_wait boot \<noteq> None \<and>
   sent (sessions (the (run overtaken_wait boot)) 0)
     = fst (do_GET ''/stream.mjpg'' (Some StreamingOutput_init)) @ stream_part frameB"
  by (simp add: model_defs)

text \<open>
  C2, amended. A session enters \<^verbatim>\<open>wait()\<close> when nothing has been published and makes
  no step of its own. As long as nothing is published its \<^verbatim>\<open>wait()\<close> cannot return (there
  is no timeout). Once something has been published, \<^verbatim>\<open>wait()\<close> can return, the frame
  read at line 98 is the latest published frame, never \<^verbatim>\<open>None\<close>, and that frame is the
  one written as the session's first part. It is the first published frame when no second
  publish has happened by then.
\<close>

theorem first_wait_suspends_until_publish:
  assumes r: "run (pre @ [Enter_wait t] @ mid) boot = Some s"
    and p: "published pre = []"
    and q: "\<forall>l\<in>set mid. actor l \<noteq> Some t"
  shows "(published mid = [] \<longrightarrow> step (Leave_wait t) s = None) \<and>
         (published mid \<noteq> [] \<longrightarrow>
            (\<exists>s'. step (Leave_wait t) s = Some s' \<and>
                  pc (sessions s' t) = Got (Some (last (published mid))) \<and>
                  (\<exists>s''. step (Test_frame t) s' = Some s'' \<and>
                         pc (sessions s'' t) = Calls (stream_part (last (published mid))) To_loop)))"
proof -
  from r have "run ((pre @ [Enter_wait t]) @ mid) boot = Some s" by simp
  then obtain s1 where a: "run (pre @ [Enter_wait t]) boot = Some s1" and b: "run mid s1 = Some s"
    unfolding run_append_Some by blast
  from a obtain s0 where "run pre boot = Some s0" and e: "step (Enter_wait t) s0 = Some s1"
    unfolding run_append_Some by (auto split: option.splits)
  from e have bl: "pc (sessions s1 t) = Blocked" and w: "t \<in> waiters (condition (output s1))"
    by (auto simp: wait_enter_def split: pc.splits)
  have none: "step (Leave_wait t) s = None" if "published mid = []"
    using run_stays_blocked [OF b that bl w] by (simp add: notified_def)
  have some: "\<exists>s'. step (Leave_wait t) s = Some s' \<and>
                  pc (sessions s' t) = Got (Some (last (published mid))) \<and>
                  (\<exists>s''. step (Test_frame t) s' = Some s'' \<and>
                         pc (sessions s'' t) = Calls (stream_part (last (published mid))) To_loop)"
    if ne: "published mid \<noteq> []"
  proof -
    from run_other [OF b q] bl have bl': "pc (sessions s t) = Blocked" by simp
    from run_not_waiting [OF b q] ne have nw: "t \<notin> waiters (condition (output s))" by simp
    from bl' nw obtain s' where l: "step (Leave_wait t) s = Some s'"
      by (simp add: notified_def)
    from leave_wait_reads_latest [OF run_snoc [OF r l]] ne p
    have g: "pc (sessions s' t) = Got (Some (last (published mid)))"
      by (simp add: published_append)
    from l g test_frame_Some [OF g] show ?thesis by simp
  qed
  from none some show ?thesis by blast
qed

theorem first_wait_suspends_until_publish_witness:
  "step (Leave_wait 0) (the (run (open_stream 0 @ [Enter_wait 0] @ [Connect 1 ''/'']) boot)) = None \<and>
   (\<exists>s'. step (Leave_wait 0)
            (the (run (open_stream 0 @ [Enter_wait 0] @ [Connect 1 ''/'', Encoder_write frameA]) boot))
          = Some s' \<and>
         pc (sessions s' 0) = Got (Some frameA))"
proof -
  have r1: "run (open_stream 0 @ [Enter_wait 0] @ [Connect 1 ''/'']) boot \<noteq> None"
    by (simp add: model_defs)
  then obtain s1 where s1: "run (open_stream 0 @ [Enter_wait 0] @ [Connect 1 ''/'']) boot = Some s1"
    by blast
  have r2: "run (open_stream 0 @ [Enter_wait 0] @ [Connect 1 ''/'', Encoder_write frameA]) boot \<noteq> None"
    by (simp add: model_defs)
  then obtain s2 where
    s2: "run (open_stream 0 @ [Enter_wait 0] @ [Connect 1 ''/'', Encoder_write frameA]) boot = Some s2"
    by blast
  have p: "published (open_stream 0) = []" by (simp add: model_defs)
  have q1: "\<forall>l\<in>set [Connect 1 ''/'']. actor l \<noteq> Some 0" by simp
  have q2: "\<forall>l\<in>set [Connect 1 ''/'', Encoder_write frameA]. actor l \<noteq> Some 0" by simp
  have e1: "published [Connect 1 ''/''] = []" by simp
  have e2: "published [Connect 1 ''/'', Encoder_write frameA] = [frameA]" by (simp add: model_defs)
  from first_wait_suspends_until_publish [OF s1 p q1] e1
  have a: "step (Leave_wait 0) s1 = None" by simp
  from first_wait_suspends_until_publish [OF s2 p q2] e2
  have b: "\<exists>s'. step (Leave_wait 0) s2 = Some s' \<and> pc (sessions s' 0) = Got (Some frameA)"
    by (auto simp del: step.simps)
  from a b s1 s2 show ?thesis by (simp del: step.simps)
qed


section \<open>The frame slot\<close>

text \<open>
  C10. \<^verbatim>\<open>__init__\<close> leaves the slot \<^verbatim>\<open>None\<close>; \<^verbatim>\<open>write\<close> leaves the slot as it was or
  sets it to the chunk, so a slot that holds a frame keeps holding one; in every state the
  server reaches after a publish the slot holds a frame; and no session ever stands at
  line 99 with \<^verbatim>\<open>frame\<close> equal to \<^verbatim>\<open>None\<close>, so the \<^verbatim>\<open>continue\<close> of line 100 is not taken.
\<close>

theorem frame_slot_stays_set:
  "frame StreamingOutput_init = None \<and>
   (frame (snd (StreamingOutput_write buf out)) = frame out \<or> frame (snd (StreamingOutput_write buf out)) = Some buf) \<and>
   (frame out \<noteq> None \<longrightarrow> frame (snd (StreamingOutput_write buf out)) \<noteq> None) \<and>
   (run tr boot = Some s \<longrightarrow> published tr \<noteq> [] \<longrightarrow> frame (output s) \<noteq> None) \<and>
   (run tr boot = Some s \<longrightarrow> pc (sessions s t) \<noteq> Got None)"
proof -
  have a: "frame StreamingOutput_init = None" by (simp add: StreamingOutput_init_def)
  have b: "frame (snd (StreamingOutput_write buf out)) = frame out \<or> frame (snd (StreamingOutput_write buf out)) = Some buf"
    by (simp add: frame_write)
  have c: "frame out \<noteq> None \<longrightarrow> frame (snd (StreamingOutput_write buf out)) \<noteq> None"
    by (simp add: frame_write)
  have d: "frame (output s) \<noteq> None" if "run tr boot = Some s" and "published tr \<noteq> []"
    using run_frame [OF that(1)] that(2) by simp
  have e: "pc (sessions s t) \<noteq> Got None" if "run tr boot = Some s"
    using run_wake_inv [OF that wake_inv_boot] by (simp add: wake_inv_def)
  from a b c d e show ?thesis by blast
qed

theorem frame_slot_stays_set_witness:
  "frame (output (the (run (open_stream 0 @ [Enter_wait 0, Encoder_write frameA, Leave_wait 0,
                                             Encoder_write [CHR 0x00]]) boot))) \<noteq> None \<and>
   pc (sessions (the (run (open_stream 0 @ [Enter_wait 0, Encoder_write frameA, Leave_wait 0,
                                             Encoder_write [CHR 0x00]]) boot)) 0) \<noteq> Got None"
proof -
  let ?tr = "open_stream 0 @ [Enter_wait 0, Encoder_write frameA, Leave_wait 0, Encoder_write [CHR 0x00]]"
  have "run ?tr boot \<noteq> None" by (simp add: model_defs)
  then obtain s where s: "run ?tr boot = Some s" by blast
  have p: "published ?tr \<noteq> []" by (simp add: model_defs published_append)
  from frame_slot_stays_set [of "[]" StreamingOutput_init ?tr s 0] s p show ?thesis by simp
qed





section \<open>Multipart framing\<close>




section \<open>Requests\<close>


text \<open>
  C9. For a path other than \<^verbatim>\<open>/\<close> and \<^verbatim>\<open>/stream.mjpg\<close> the handler calls \<^verbatim>\<open>send_error\<close>
  with status 404 and returns; serving such a request leaves \<^verbatim>\<open>output\<close> (frame slot and
  waiters) as it was. For the path \<^verbatim>\<open>/\<close> the handler sends status 200 with
  \<^verbatim>\<open>Content-Type: text/html\<close>.
\<close>

theorem other_paths_404_root_200:
  assumes "path \<noteq> ''/''" and "path \<noteq> ''/stream.mjpg''"
    and "pc (sessions s t) = Queued path" and "serving s = None"
  shows "do_GET path outp = ([Send_error NOT_FOUND None, End_headers], To_return) \<and>
         status_code NOT_FOUND = 404 \<and>
         (\<exists>s'. run [Accept t, Call t True, Call t True] s = Some s' \<and>
               output s' = output s \<and>
               pc (sessions s' t) = Returned \<and>
               sent (sessions s' t) = sent (sessions s t) @ [Send_error NOT_FOUND None, End_headers]) \<and>
         do_GET ''/'' outp =
           ([Send_response OK,
             Send_header ''Content-Type'' ''text/html'',
             Send_header ''Content-Length'' (decimal (length PAGE)),
             End_headers,
             Wfile_write PAGE], To_return) \<and>
         status_code OK = 200"
  using assms by (simp add: do_GET_def after_calls_def)

theorem other_paths_404_root_200_witness:
  "do_GET ''/favicon.ico'' (Some StreamingOutput_init)
     = ([Send_error NOT_FOUND None, End_headers], To_return) \<and>
   (\<exists>s'. run [Accept 0, Call 0 True, Call 0 True]
            (the (run [Encoder_write frameA, Connect 0 ''/favicon.ico''] boot)) = Some s' \<and>
         output s' = output (the (run [Encoder_write frameA, Connect 0 ''/favicon.ico''] boot)) \<and>
         pc (sessions s' 0) = Returned)"
proof -
  let ?s = "the (run [Encoder_write frameA, Connect 0 ''/favicon.ico''] boot)"
  have a: "''/favicon.ico'' \<noteq> ''/''" by simp
  have b: "''/favicon.ico'' \<noteq> ''/stream.mjpg''" by simp
  have c: "pc (sessions ?s 0) = Queued ''/favicon.ico''" by (simp add: model_defs)
  have d: "serving ?s = None" by (simp add: model_defs)
  from other_paths_404_root_200 [OF a b c d, of "Some StreamingOutput_init"]
  show ?thesis by blast
qed

section \<open>A failing session\<close>






end
